theory Spec2Isabelle
  imports Complex_Main
begin

section \<open>Jordan form by the Weyr characteristic: the model\<close>

text \<open>
  The program (\<^verbatim>\<open>src/Jordan/jordan.py\<close>) works on sympy matrices. A matrix is modelled as a
  record of its shape and its rows; the shape is kept apart from the rows because sympy
  tells a \<open>0 \<times> 3\<close> matrix from a \<open>3 \<times> 0\<close> one. Python exceptions are values of \<open>error\<close>,
  Python's \<open>None\<close> is \<open>None\<close> of an option, and Python integers are \<open>int\<close>.
\<close>

datatype error = ShapeError | NonSquareMatrixError | AttributeError | IndexError

record 'a matrix =
  nrows :: nat
  ncols :: nat
  entries :: "'a list list"

text \<open>The well-formed matrices: as many rows as \<open>nrows\<close> says, each of \<open>ncols\<close> entries.\<close>

definition wf_matrix :: "'a matrix \<Rightarrow> bool" where
  "wf_matrix M = (length (entries M) = nrows M \<and> list_all (\<lambda>r. length r = ncols M) (entries M))"

subsection \<open>The sympy operations the program calls\<close>

text \<open>\<^verbatim>\<open>zeros(r, c)\<close> and \<^verbatim>\<open>eye(n)\<close>.\<close>

definition zeros :: "nat \<Rightarrow> nat \<Rightarrow> 'a::zero matrix" where
  "zeros r c = \<lparr>nrows = r, ncols = c, entries = replicate r (replicate c 0)\<rparr>"

definition eye :: "nat \<Rightarrow> 'a::{zero,one} matrix" where
  "eye n = \<lparr>nrows = n, ncols = n,
            entries = map (\<lambda>i. map (\<lambda>j. if i = j then 1 else 0) [0..<n]) [0..<n]\<rparr>"

text \<open>\<^verbatim>\<open>Matrix(xs)\<close> on a flat list: a column vector, and the \<open>0 \<times> 0\<close> matrix for \<^verbatim>\<open>[]\<close>.\<close>

definition Matrix :: "'a list \<Rightarrow> 'a matrix" where
  "Matrix xs = (if xs = [] then \<lparr>nrows = 0, ncols = 0, entries = []\<rparr>
                else \<lparr>nrows = length xs, ncols = 1, entries = map (\<lambda>x. [x]) xs\<rparr>)"

text \<open>
  \<^verbatim>\<open>A.row_join(B)\<close> and \<^verbatim>\<open>A.col_join(B)\<close>. A matrix with no column can be joined to
  the left of any matrix, and one with no row on top of any: sympy first reshapes it.
  Otherwise a mismatch of the shared dimension raises \<^verbatim>\<open>ShapeError\<close>.
\<close>

definition row_join :: "'a matrix \<Rightarrow> 'a matrix \<Rightarrow> error + 'a matrix" where
  "row_join A B =
     (let A' = (if ncols A = 0 \<and> nrows A \<noteq> nrows B
                then \<lparr>nrows = nrows B, ncols = 0, entries = replicate (nrows B) []\<rparr> else A)
      in if nrows A' \<noteq> nrows B then Inl ShapeError
         else Inr \<lparr>nrows = nrows A', ncols = ncols A' + ncols B,
                   entries = map2 (@) (entries A') (entries B)\<rparr>)"

definition col_join :: "'a matrix \<Rightarrow> 'a matrix \<Rightarrow> error + 'a matrix" where
  "col_join A B =
     (let A' = (if nrows A = 0 \<and> ncols A \<noteq> ncols B
                then \<lparr>nrows = 0, ncols = ncols B, entries = []\<rparr> else A)
      in if ncols A' \<noteq> ncols B then Inl ShapeError
         else Inr \<lparr>nrows = nrows A' + nrows B, ncols = ncols A',
                   entries = entries A' @ entries B\<rparr>)"

text \<open>
  Scalar multiple, sum, difference, product and power (\<^verbatim>\<open>c*A\<close>, \<^verbatim>\<open>A+B\<close>, \<^verbatim>\<open>A-B\<close>,
  \<^verbatim>\<open>A**p\<close>). Sum and difference raise \<^verbatim>\<open>ShapeError\<close> on operands of different shapes;
  the power raises \<^verbatim>\<open>NonSquareMatrixError\<close> on a matrix that is not square, is the
  identity for \<open>p = 0\<close> and the \<open>p\<close>-fold product otherwise.
\<close>

definition scalar_mul :: "'a::times \<Rightarrow> 'a matrix \<Rightarrow> 'a matrix" where
  "scalar_mul c A = A\<lparr>entries := map (map ((*) c)) (entries A)\<rparr>"

definition mat_add :: "'a::plus matrix \<Rightarrow> 'a matrix \<Rightarrow> error + 'a matrix" where
  "mat_add A B =
     (if nrows A \<noteq> nrows B \<or> ncols A \<noteq> ncols B then Inl ShapeError
      else Inr (A\<lparr>entries := map2 (map2 (+)) (entries A) (entries B)\<rparr>))"

definition mat_sub :: "'a::minus matrix \<Rightarrow> 'a matrix \<Rightarrow> error + 'a matrix" where
  "mat_sub A B =
     (if nrows A \<noteq> nrows B \<or> ncols A \<noteq> ncols B then Inl ShapeError
      else Inr (A\<lparr>entries := map2 (map2 (-)) (entries A) (entries B)\<rparr>))"

definition mat_mul :: "'a::semiring_0 matrix \<Rightarrow> 'a matrix \<Rightarrow> 'a matrix" where
  "mat_mul A B =
     \<lparr>nrows = nrows A, ncols = ncols B,
      entries = map (\<lambda>row. map (\<lambda>j. sum_list (map2 (*) row (map (\<lambda>r. r ! j) (entries B))))
                                [0..<ncols B]) (entries A)\<rparr>"

fun power_rec :: "'a::semiring_1 matrix \<Rightarrow> nat \<Rightarrow> 'a matrix" where
  "power_rec M 0 = eye (nrows M)"
| "power_rec M (Suc p) = mat_mul M (power_rec M p)"

definition mat_pow :: "'a::semiring_1 matrix \<Rightarrow> nat \<Rightarrow> error + 'a matrix" where
  "mat_pow M p = (if nrows M \<noteq> ncols M then Inl NonSquareMatrixError else Inr (power_rec M p))"

subsection \<open>\<^verbatim>\<open>weyr\<close>\<close>

text \<open>
  \<^verbatim>\<open>for p in range(1, len(r)): w.append(r[p-1] - r[p])\<close>, then \<^verbatim>\<open>w.append(0)\<close>.
  The indices \<open>p - 1\<close> and \<open>p\<close> are in range for every \<open>p\<close> of the loop.
\<close>

definition weyr :: "int list \<Rightarrow> int list" where
  "weyr r = foldl (\<lambda>w p. w @ [r ! (p - 1) - r ! p]) [] [1..<length r] @ [0]"

subsection \<open>\<^verbatim>\<open>stabilize_ranks\<close>\<close>

text \<open>
  The rank of a matrix is computed by sympy (\<^verbatim>\<open>.rank()\<close>); the model takes it as the
  parameter \<open>rank\<close>. The loop \<^verbatim>\<open>while True\<close> has no bound, so it is a partial function:
  \<open>None\<close> is the run that never returns. In the exit test \<^verbatim>\<open>r[p-1]\<close> is the last
  entry of \<open>r\<close> when \<open>p = 0\<close> (Python's index \<open>-1\<close>).
\<close>

partial_function (option) stabilize_loop ::
  "('a::comm_ring_1 matrix \<Rightarrow> int) \<Rightarrow> 'a matrix \<Rightarrow> 'a \<Rightarrow> int list \<Rightarrow> nat \<Rightarrow> (error + int list) option"
where
  "stabilize_loop rank A eigenval r p =
     (case mat_sub A (scalar_mul eigenval (eye (nrows A))) of
        Inl e \<Rightarrow> Some (Inl e)
      | Inr D \<Rightarrow>
         (case mat_pow D p of
            Inl e \<Rightarrow> Some (Inl e)
          | Inr P \<Rightarrow>
             (let rk = rank P; r' = r @ [rk]
              in if rk = (if p = 0 then last r' else r' ! (p - 1)) \<and> p \<noteq> 0 then Some (Inr r')
                 else stabilize_loop rank A eigenval r' (p + 1))))"

definition stabilize_ranks ::
  "('a::comm_ring_1 matrix \<Rightarrow> int) \<Rightarrow> 'a matrix \<Rightarrow> 'a \<Rightarrow> (error + int list) option" where
  "stabilize_ranks rank A eigenval = stabilize_loop rank A eigenval [] 0"

subsection \<open>\<^verbatim>\<open>concat_vec\<close>, \<^verbatim>\<open>get_super\<close> and \<^verbatim>\<open>jordan_block\<close>\<close>

text \<open>\<^verbatim>\<open>M = v[0]\<close>, then \<^verbatim>\<open>M = M.row_join(v[i])\<close> for \<open>i = 1, \<dots>, len(v) - 1\<close>.\<close>

fun concat_loop :: "'a matrix list \<Rightarrow> 'a matrix \<Rightarrow> nat list \<Rightarrow> error + 'a matrix" where
  "concat_loop v M [] = Inr M"
| "concat_loop v M (i # is) =
     (case row_join M (v ! i) of Inl e \<Rightarrow> Inl e | Inr M' \<Rightarrow> concat_loop v M' is)"

definition concat_vec :: "'a matrix list \<Rightarrow> error + 'a matrix" where
  "concat_vec v = (case v of [] \<Rightarrow> Inl IndexError | M # _ \<Rightarrow> concat_loop v M [1..<length v])"

text \<open>
  The columns of \<^verbatim>\<open>get_super(n)\<close>: first the zero vector, then for \<open>i = 0, \<dots>, n - 2\<close> the
  vector \<^verbatim>\<open>[0]*n\<close> with \<^verbatim>\<open>v_i[i] = 1\<close>.
\<close>

definition get_super :: "nat \<Rightarrow> error + 'a::{zero,one} matrix" where
  "get_super n =
     concat_vec (foldl (\<lambda>v i. v @ [Matrix ((replicate n 0)[i := 1])])
                       [Matrix (replicate n 0)] [0..<n - 1])"

definition jordan_block :: "'a::comm_ring_1 \<Rightarrow> nat \<Rightarrow> error + 'a matrix" where
  "jordan_block eigenval n =
     (case get_super n of Inl e \<Rightarrow> Inl e | Inr S \<Rightarrow> mat_add (scalar_mul eigenval (eye n)) S)"

subsection \<open>\<^verbatim>\<open>direct_summand\<close> and \<^verbatim>\<open>many_summand\<close>\<close>

text \<open>
  The lists the program hands to \<^verbatim>\<open>many_summand\<close> can hold \<^verbatim>\<open>None\<close> (what
  \<^verbatim>\<open>create_blocks\<close> returns when it built no block), so the operands are options;
  reading \<^verbatim>\<open>.shape\<close> of \<^verbatim>\<open>None\<close> raises \<^verbatim>\<open>AttributeError\<close>.
\<close>

definition direct_summand :: "'a::zero matrix option \<Rightarrow> 'a matrix option \<Rightarrow> error + 'a matrix" where
  "direct_summand A B =
     (case (A, B) of
        (Some a, Some b) \<Rightarrow>
          (let lower_zero = zeros (nrows b) (ncols a);
               upper_zero = zeros (ncols a) (nrows b)
           in case row_join a upper_zero of
                Inl e \<Rightarrow> Inl e
              | Inr upper \<Rightarrow>
                 (case row_join lower_zero b of
                    Inl e \<Rightarrow> Inl e
                  | Inr lower \<Rightarrow> col_join upper lower))
      | _ \<Rightarrow> Inl AttributeError)"

text \<open>\<^verbatim>\<open>for i in range(2, len(ml)): M = direct_summand(M, ml[i])\<close>.\<close>

fun summand_loop :: "'a::zero matrix option list \<Rightarrow> 'a matrix \<Rightarrow> nat list \<Rightarrow> error + 'a matrix" where
  "summand_loop ml M [] = Inr M"
| "summand_loop ml M (i # is) =
     (case direct_summand (Some M) (ml ! i) of Inl e \<Rightarrow> Inl e | Inr M' \<Rightarrow> summand_loop ml M' is)"

definition many_summand :: "'a::zero matrix option list \<Rightarrow> error + 'a matrix option" where
  "many_summand ml =
     (if length ml = 1 then Inr (ml ! 0)
      else if length ml > 1 then
        (case direct_summand (ml ! 0) (ml ! 1) of
           Inl e \<Rightarrow> Inl e
         | Inr M \<Rightarrow> (case summand_loop ml M [2..<length ml] of
                       Inl e \<Rightarrow> Inl e | Inr M' \<Rightarrow> Inr (Some M')))
      else Inr None)"

subsection \<open>\<^verbatim>\<open>create_blocks\<close>\<close>

text \<open>\<^verbatim>\<open>for i in range(1, len(weyr)): block_info.append(weyr[i-1] - weyr[i])\<close>.\<close>

definition block_info :: "int list \<Rightarrow> int list" where
  "block_info w = foldl (\<lambda>bi i. bi @ [w ! (i - 1) - w ! i]) [] [1..<length w]"

text \<open>The inner loop \<^verbatim>\<open>for _ in range(block_info[i])\<close>, run \<open>k\<close> times for blocks of size \<open>sz\<close>.\<close>

fun append_blocks ::
  "'a::comm_ring_1 \<Rightarrow> nat \<Rightarrow> nat \<Rightarrow> 'a matrix option list \<Rightarrow> error + 'a matrix option list" where
  "append_blocks eigenval sz 0 blocks = Inr blocks"
| "append_blocks eigenval sz (Suc k) blocks =
     (case jordan_block eigenval sz of
        Inl e \<Rightarrow> Inl e
      | Inr block \<Rightarrow> append_blocks eigenval sz k (blocks @ [Some block]))"

text \<open>The outer loop over \<^verbatim>\<open>reversed(range(len(block_info)))\<close>.\<close>

fun blocks_loop ::
  "'a::comm_ring_1 \<Rightarrow> int list \<Rightarrow> nat list \<Rightarrow> 'a matrix option list \<Rightarrow> error + 'a matrix option list" where
  "blocks_loop eigenval bi [] blocks = Inr blocks"
| "blocks_loop eigenval bi (i # is) blocks =
     (if bi ! i > 0 then
        (case append_blocks eigenval (i + 1) (nat (bi ! i)) blocks of
           Inl e \<Rightarrow> Inl e
         | Inr blocks' \<Rightarrow> blocks_loop eigenval bi is blocks')
      else blocks_loop eigenval bi is blocks)"

text \<open>The list \<^verbatim>\<open>blocks\<close> as it stands when \<^verbatim>\<open>create_blocks\<close> calls \<^verbatim>\<open>many_summand\<close>.\<close>

definition built_blocks :: "int list \<Rightarrow> 'a::comm_ring_1 \<Rightarrow> error + 'a matrix option list" where
  "built_blocks w eigenval =
     blocks_loop eigenval (block_info w) (rev [0..<length (block_info w)]) []"

definition create_blocks :: "int list \<Rightarrow> 'a::comm_ring_1 \<Rightarrow> error + 'a matrix option" where
  "create_blocks w eigenval =
     (case built_blocks w eigenval of Inl e \<Rightarrow> Inl e | Inr blocks \<Rightarrow> many_summand blocks)"

subsection \<open>\<^verbatim>\<open>jordan_form\<close>\<close>

text \<open>
  \<^verbatim>\<open>A.eigenvals()\<close> is sympy's: a dictionary from each distinct eigenvalue to its algebraic
  multiplicity, here the parameter \<open>eigenvals\<close> returning the dictionary's items in its
  order. The program reads the keys only.
\<close>

fun eigen_loop ::
  "('a::comm_ring_1 matrix \<Rightarrow> int) \<Rightarrow> 'a matrix \<Rightarrow> 'a list \<Rightarrow> 'a matrix option list
     \<Rightarrow> (error + 'a matrix option list) option" where
  "eigen_loop rank A [] blocks = Some (Inr blocks)"
| "eigen_loop rank A (e # es) blocks =
     (case stabilize_ranks rank A e of
        None \<Rightarrow> None
      | Some (Inl err) \<Rightarrow> Some (Inl err)
      | Some (Inr r) \<Rightarrow>
         (case create_blocks (weyr r) e of
            Inl err \<Rightarrow> Some (Inl err)
          | Inr e_m \<Rightarrow> eigen_loop rank A es (blocks @ [e_m])))"

definition jordan_form ::
  "('a::comm_ring_1 matrix \<Rightarrow> error + ('a \<times> int) list) \<Rightarrow> ('a matrix \<Rightarrow> int) \<Rightarrow> 'a matrix
     \<Rightarrow> (error + 'a matrix option) option" where
  "jordan_form eigenvals rank A =
     (case eigenvals A of
        Inl err \<Rightarrow> Some (Inl err)
      | Inr evs \<Rightarrow>
         (case eigen_loop rank A (map fst evs) [] of
            None \<Rightarrow> None
          | Some (Inl err) \<Rightarrow> Some (Inl err)
          | Some (Inr blocks) \<Rightarrow>
             if length blocks > 1 then Some (many_summand blocks)
             else (case blocks of [] \<Rightarrow> Some (Inl IndexError) | b # _ \<Rightarrow> Some (Inr b))))"

subsection \<open>An exact rank\<close>

text \<open>
  A rank function to run the model with: Gaussian elimination over a field, column by
  column. If no row has a non-zero entry in the first column the column is dropped;
  otherwise the first such row is the pivot, it is subtracted from the other rows so that
  their first entries vanish, and it counts for one.
\<close>

primrec rank_rows :: "nat \<Rightarrow> 'a::field list list \<Rightarrow> int" where
  "rank_rows 0 rs = 0"
| "rank_rows (Suc c) rs =
     (case filter (\<lambda>r. hd r \<noteq> 0) rs of
        [] \<Rightarrow> rank_rows c (map tl rs)
      | pv # _ \<Rightarrow>
          1 + rank_rows c (map (\<lambda>r. map2 (\<lambda>x y. x - hd r / hd pv * y) (tl r) (tl pv))
                                (remove1 pv rs)))"

definition rank_gauss :: "'a::field matrix \<Rightarrow> int" where
  "rank_gauss M = rank_rows (ncols M) (entries M)"

subsection \<open>The specification's wording, for comparison\<close>

text \<open>
  The left fold of \<open>direct_summand\<close> over a list, starting from an accumulator, as the
  specification describes \<^verbatim>\<open>many_summand\<close>.
\<close>

fun direct_sum_fold :: "'a::zero matrix option \<Rightarrow> 'a matrix option list \<Rightarrow> error + 'a matrix option" where
  "direct_sum_fold acc [] = Inr acc"
| "direct_sum_fold acc (B # Bs) =
     (case direct_summand acc B of Inl e \<Rightarrow> Inl e | Inr M \<Rightarrow> direct_sum_fold (Some M) Bs)"

text \<open>
  The matrix \<open>S\<close> with 1 on the superdiagonal and the Jordan block \<open>\<lambda>I + S\<close>, entry by
  entry. \<open>super_column n j\<close> is column \<open>j\<close> of \<open>S\<close>.
\<close>

definition super_column :: "nat \<Rightarrow> nat \<Rightarrow> 'a::{zero,one} list" where
  "super_column n j = (if j = 0 then replicate n 0 else (replicate n 0)[j - 1 := 1])"

definition superdiagonal :: "nat \<Rightarrow> 'a::{zero,one} matrix" where
  "superdiagonal n =
     \<lparr>nrows = n, ncols = n,
      entries = map (\<lambda>i. map (\<lambda>j. if j = i + 1 then 1 else 0) [0..<n]) [0..<n]\<rparr>"

definition jordan_matrix :: "'a::{zero,one} \<Rightarrow> nat \<Rightarrow> 'a matrix" where
  "jordan_matrix ev n =
     \<lparr>nrows = n, ncols = n,
      entries = map (\<lambda>i. map (\<lambda>j. if i = j then ev else if j = i + 1 then 1 else 0) [0..<n])
                    [0..<n]\<rparr>"

text \<open>How many entries of a list of blocks are \<open>i \<times> i\<close> matrices.\<close>

definition blocks_of_size :: "nat \<Rightarrow> 'a matrix option list \<Rightarrow> nat" where
  "blocks_of_size i blocks =
     length (filter (\<lambda>b. case b of None \<Rightarrow> False | Some M \<Rightarrow> nrows M = i \<and> ncols M = i) blocks)"

text \<open>
  The rank of \<open>(A - \<lambda>I)\<^sup>p\<close> as the loop of \<open>stabilize_ranks\<close> computes it on a square \<open>A\<close>.
\<close>

definition rank_of_power :: "('a::comm_ring_1 matrix \<Rightarrow> int) \<Rightarrow> 'a matrix \<Rightarrow> 'a \<Rightarrow> nat \<Rightarrow> int" where
  "rank_of_power rank A ev p =
     rank (power_rec (A\<lparr>entries := map2 (map2 (-)) (entries A)
                                    (entries (scalar_mul ev (eye (nrows A))))\<rparr>) p)"

text \<open>The specification's end-to-end example \<open>[[2, 1], [0, 2]]\<close>, and \<open>A - 2I\<close> for it.\<close>

definition jordan_example :: "rat matrix" where
  "jordan_example = \<lparr>nrows = 2, ncols = 2, entries = [[2, 1], [0, 2]]\<rparr>"

definition nilpotent_example :: "rat matrix" where
  "nilpotent_example = \<lparr>nrows = 2, ncols = 2, entries = [[0, 1], [0, 0]]\<rparr>"




section \<open>Properties\<close>

lemma foldl_append_each: "foldl (\<lambda>acc x. acc @ [f x]) a xs = a @ map f xs"
  by (induction xs arbitrary: a) simp_all

lemma weyr_map: "weyr r = map (\<lambda>p. r ! (p - 1) - r ! p) [1..<length r] @ [0]"
  by (simp add: weyr_def foldl_append_each)

text \<open>
  Claim C4. For a rank list \<open>r\<close> of length at least 2, \<open>weyr r\<close> has the length of \<open>r\<close>,
  its entry at position \<open>p - 1\<close> is the first difference \<open>r[p-1] - r[p]\<close> for every
  \<open>p = 1, \<dots>, len(r) - 1\<close>, and its last entry is the appended 0.
\<close>

theorem weyr_first_differences:
  assumes "2 \<le> length r"
  shows "length (weyr r) = length r
       \<and> (\<forall>p. 1 \<le> p \<and> p < length r \<longrightarrow> weyr r ! (p - 1) = r ! (p - 1) - r ! p)
       \<and> weyr r ! (length r - 1) = 0 \<and> last (weyr r) = 0"
proof -
  let ?d = "map (\<lambda>p. r ! (p - 1) - r ! p) [1..<length r]"
  have len: "length ?d = length r - 1" by simp
  have w: "weyr r = ?d @ [0]" by (rule weyr_map)
  have l: "length (weyr r) = length r" using assms by (simp add: w)
  have d: "weyr r ! (p - 1) = r ! (p - 1) - r ! p" if "1 \<le> p" "p < length r" for p
  proof -
    have "p - 1 < length ?d" using that by simp
    then have "weyr r ! (p - 1) = ?d ! (p - 1)" by (simp add: w nth_append)
    also have "\<dots> = r ! (p - 1) - r ! p"
    proof -
      have "[1..<length r] ! (p - 1) = 1 + (p - 1)"
        using that by (intro nth_upt) simp
      then have "[1..<length r] ! (p - 1) = p" using that by simp
      moreover have "p - 1 < length [1..<length r]" using that by simp
      ultimately show ?thesis by (simp del: upt_Suc)
    qed
    finally show ?thesis .
  qed
  have z: "weyr r ! (length r - 1) = 0"
    using nth_append_length [of ?d 0 "[]"] by (simp add: w)
  have "last (weyr r) = 0" by (simp add: w)
  with l d z show ?thesis by blast
qed

theorem weyr_first_differences_witness:
  "2 \<le> length [3, 1, 0, 0 :: int] \<and> weyr [3, 1, 0, 0] = [2, 1, 0, 0]
   \<and> weyr [3, 1, 0, 0] ! (2 - 1) = [3, 1, 0, 0] ! (2 - 1) - [3, 1, 0, 0 :: int] ! 2
   \<and> last (weyr [3, 1, 0, 0]) = 0"
proof -
  have h: "2 \<le> length [3, 1, 0, 0 :: int]" by simp
  have e: "weyr [3, 1, 0, 0] = [2, 1, 0, 0]" by (simp add: weyr_def upt_rec)
  from weyr_first_differences [OF h] h e show ?thesis by simp
qed

subsection \<open>\<^verbatim>\<open>many_summand\<close> and the empty list\<close>

lemma block_info_map: "block_info w = map (\<lambda>i. w ! (i - 1) - w ! i) [1..<length w]"
  by (simp add: block_info_def foldl_append_each)

lemma length_block_info: "length (block_info w) = length w - 1"
  by (simp add: block_info_map)

lemma block_info_nth:
  assumes "i < length w - 1"
  shows "block_info w ! i = w ! i - w ! (i + 1)"
proof -
  have "[1..<length w] ! i = 1 + i" using assms by (intro nth_upt) simp
  moreover have "i < length [1..<length w]" using assms by simp
  ultimately show ?thesis by (simp add: block_info_map del: upt_Suc)
qed

lemma blocks_loop_skip:
  "\<forall>i \<in> set is. bi ! i \<le> 0 \<Longrightarrow> blocks_loop ev bi is blocks = Inr blocks"
  by (induction "is" arbitrary: blocks) simp_all

lemma summand_loop_fold:
  "k \<le> length ml \<Longrightarrow>
   (case summand_loop ml M [k..<length ml] of Inl e \<Rightarrow> Inl e | Inr M' \<Rightarrow> Inr (Some M'))
     = direct_sum_fold (Some M) (drop k ml)"
proof (induction "length ml - k" arbitrary: k M)
  case 0
  then show ?case by simp
next
  case (Suc d)
  then have k: "k < length ml" by simp
  have u: "[k..<length ml] = k # [Suc k..<length ml]" using k by (simp add: upt_rec)
  have dr: "drop k ml = ml ! k # drop (Suc k) ml" using k by (simp add: Cons_nth_drop_Suc)
  show ?case
  proof (cases "direct_summand (Some M) (ml ! k)")
    case (Inl e)
    then show ?thesis by (simp add: u dr)
  next
    case (Inr M')
    have "d = length ml - Suc k" using Suc.hyps(2) by simp
    from Suc.hyps(1) [OF this, of M'] k Inr show ?thesis by (simp add: u dr)
  qed
qed

lemma many_summand_cons: "many_summand (A # As) = direct_sum_fold A As"
proof (cases As)
  case Nil
  then show ?thesis by (simp add: many_summand_def)
next
  case (Cons B Bs)
  let ?ml = "A # B # Bs"
  show ?thesis
  proof (cases "direct_summand A B")
    case (Inl e)
    then show ?thesis by (simp add: many_summand_def Cons)
  next
    case (Inr M)
    have "2 \<le> length ?ml" by simp
    from summand_loop_fold [OF this, of M] have
      "(case summand_loop ?ml M [2..<length ?ml] of Inl e \<Rightarrow> Inl e | Inr M' \<Rightarrow> Inr (Some M'))
         = direct_sum_fold (Some M) Bs" by (simp add: numeral_2_eq_2)
    then show ?thesis using Inr by (simp add: many_summand_def Cons)
  qed
qed

text \<open>
  Claim C8. On a non-empty list \<open>many_summand\<close> is the left fold of \<open>direct_summand\<close>
  over the list in order, starting from its first element; on a one-element list it
  returns that element unchanged.
\<close>

theorem many_summand_left_fold:
  "many_summand (A # As) = direct_sum_fold A As \<and> many_summand [A] = Inr A"
proof -
  have "many_summand [A] = Inr A" by (simp add: many_summand_def)
  then show ?thesis using many_summand_cons [of A As] by simp
qed

text \<open>
  Claim C10. \<open>many_summand\<close> of the empty list returns \<open>None\<close> and raises nothing; so
  when no difference \<open>w[i-1] - w[i]\<close> is positive, \<open>create_blocks\<close> builds no block and
  returns \<open>None\<close> too.
\<close>

theorem many_summand_empty_none:
  "many_summand ([] :: 'a::comm_ring_1 matrix option list) = Inr None
   \<and> (\<forall>w (ev :: 'a). (\<forall>i. 1 \<le> i \<and> i < length w \<longrightarrow> w ! (i - 1) - w ! i \<le> 0)
         \<longrightarrow> built_blocks w ev = Inr [] \<and> create_blocks w ev = Inr None)"
proof -
  have e: "many_summand ([] :: 'a matrix option list) = Inr None" by (simp add: many_summand_def)
  have "built_blocks w ev = Inr [] \<and> create_blocks w ev = Inr None"
    if h: "\<forall>i. 1 \<le> i \<and> i < length w \<longrightarrow> w ! (i - 1) - w ! i \<le> 0" for w and ev :: 'a
  proof -
    have "block_info w ! i \<le> 0" if "i < length (block_info w)" for i
    proof -
      have i: "i < length w - 1" using that by (simp add: length_block_info)
      then have "w ! (Suc i - 1) - w ! Suc i \<le> 0" using h by (intro h [rule_format]) simp
      then show ?thesis using block_info_nth [OF i] by simp
    qed
    then have "\<forall>i \<in> set (rev [0..<length (block_info w)]). block_info w ! i \<le> 0" by simp
    then have b: "built_blocks w ev = Inr []"
      unfolding built_blocks_def by (rule blocks_loop_skip)
    then show ?thesis using e by (simp add: create_blocks_def)
  qed
  with e show ?thesis by blast
qed

theorem many_summand_empty_none_witness:
  "[1, 2, 2 :: int] ! (1 - 1) - [1, 2, 2] ! 1 \<le> 0 \<and> [1, 2, 2 :: int] ! (2 - 1) - [1, 2, 2] ! 2 \<le> 0
   \<and> built_blocks [1, 2, 2] (5 :: rat) = Inr [] \<and> create_blocks [1, 2, 2] (5 :: rat) = Inr None"
proof -
  have h: "\<forall>i. 1 \<le> i \<and> i < length [1, 2, 2 :: int] \<longrightarrow> [1, 2, 2 :: int] ! (i - 1) - [1, 2, 2] ! i \<le> 0"
  proof (intro allI impI)
    fix i :: nat assume "1 \<le> i \<and> i < length [1, 2, 2 :: int]"
    then have "i = 1 \<or> i = 2" by auto
    then show "[1, 2, 2 :: int] ! (i - 1) - [1, 2, 2] ! i \<le> 0" by auto
  qed
  from many_summand_empty_none [where 'a = rat] h
  have "built_blocks [1, 2, 2] (5 :: rat) = Inr [] \<and> create_blocks [1, 2, 2] (5 :: rat) = Inr None"
    by blast
  then show ?thesis by simp
qed

subsection \<open>\<^verbatim>\<open>direct_summand\<close>\<close>

text \<open>
  Claim C3. The claim is that \<open>direct_summand A B\<close> is the block matrix of \<open>A\<close> and \<open>B\<close> for
  all matrices. The upper zero block is built as \<^verbatim>\<open>zeros(A.shape[1], B.shape[0])\<close>, so for
  the \<open>1 \<times> 2\<close> matrix \<open>[[1, 2]]\<close> and the \<open>1 \<times> 1\<close> matrix \<open>[[3]]\<close> the first
  \<^verbatim>\<open>row_join\<close> meets a block of 2 rows and raises \<^verbatim>\<open>ShapeError\<close>: no \<open>2 \<times> 3\<close> matrix
  is returned.
\<close>

theorem direct_summand_nonsquare_raises:
  "direct_summand (Some \<lparr>nrows = 1, ncols = 2, entries = [[1, 2 :: rat]]\<rparr>)
                      (Some \<lparr>nrows = 1, ncols = 1, entries = [[3]]\<rparr>) = Inl ShapeError"
  by (simp add: direct_summand_def row_join_def zeros_def Let_def)

text \<open>On square operands the block matrix is built.\<close>

lemma direct_summand_square:
  assumes "nrows a = ncols a" "nrows b = ncols b"
  shows "direct_summand (Some a) (Some b) =
           Inr \<lparr>nrows = nrows a + nrows b, ncols = ncols a + ncols b,
                entries = map2 (@) (entries a) (replicate (ncols a) (replicate (nrows b) 0))
                        @ map2 (@) (replicate (nrows b) (replicate (ncols a) 0)) (entries b)\<rparr>"
  using assms by (simp add: direct_summand_def row_join_def col_join_def zeros_def Let_def)

lemma map2_append_replicate:
  "length xs = n \<Longrightarrow> map2 (@) xs (replicate n ys) = map (\<lambda>r. r @ ys) xs"
  by (induction xs arbitrary: n) auto

lemma map2_replicate_append:
  "length xs = n \<Longrightarrow> map2 (@) (replicate n ys) xs = map (\<lambda>r. ys @ r) xs"
  by (induction xs arbitrary: n) auto

lemma direct_summand_square_wf:
  assumes "nrows a = ncols a" "nrows b = ncols b" "wf_matrix a" "wf_matrix b"
  shows "direct_summand (Some a) (Some b) =
           Inr \<lparr>nrows = nrows a + nrows b, ncols = ncols a + ncols b,
                entries = map (\<lambda>r. r @ replicate (ncols b) 0) (entries a)
                        @ map (\<lambda>r. replicate (ncols a) 0 @ r) (entries b)\<rparr>"
  using assms by (simp add: direct_summand_square wf_matrix_def map2_append_replicate map2_replicate_append)

subsection \<open>\<^verbatim>\<open>get_super\<close> and \<^verbatim>\<open>jordan_block\<close>\<close>

lemma super_column_nth:
  "i < n \<Longrightarrow> super_column n j ! i = (if j = i + 1 then 1 else 0)"
  by (auto simp: super_column_def nth_list_update)

lemma length_super_column: "length (super_column n j) = n"
  by (simp add: super_column_def)

lemma get_super_columns:
  "foldl (\<lambda>v i. v @ [Matrix ((replicate n 0)[i := 1])]) [Matrix (replicate n 0)] [0..<n - 1]
     = map (\<lambda>j. Matrix (super_column n j)) [0..<n]" if "0 < n"
proof -
  let ?lhs = "foldl (\<lambda>v i. v @ [Matrix ((replicate n 0)[i := 1])]) [Matrix (replicate n 0)] [0..<n - 1]"
  have l: "?lhs = Matrix (replicate n 0) # map (\<lambda>i. Matrix ((replicate n 0)[i := 1])) [0..<n - 1]"
    by (simp add: foldl_append_each)
  show ?thesis
  proof (rule nth_equalityI)
    show "length ?lhs = length (map (\<lambda>j. Matrix (super_column n j)) [0..<n])"
      unfolding l using that by simp
  next
    fix j assume "j < length ?lhs"
    then have j: "j < n" unfolding l using that by simp
    show "?lhs ! j = map (\<lambda>j. Matrix (super_column n j)) [0..<n] ! j"
    proof (cases j)
      case 0
      then show ?thesis unfolding l using that by (simp add: super_column_def)
    next
      case (Suc k)
      then have "k < n - 1" using j by simp
      then show ?thesis unfolding l using j Suc by (simp add: super_column_def del: upt_Suc)
    qed
  qed
qed

lemma map2_upt_nth:
  "length ys = n \<Longrightarrow> map2 f (map g [0..<n]) ys = map (\<lambda>i. f (g i) (ys ! i)) [0..<n]"
  by (rule nth_equalityI) (simp_all del: upt_Suc)

lemma concat_loop_columns:
  assumes "\<forall>j < length v. v ! j = Matrix (c j) \<and> length (c j) = n" and "0 < n"
    and "0 < k" and "k \<le> length v"
  shows "concat_loop v \<lparr>nrows = n, ncols = k, entries = map (\<lambda>i. map (\<lambda>j. c j ! i) [0..<k]) [0..<n]\<rparr>
           [k..<length v]
         = Inr \<lparr>nrows = n, ncols = length v,
                entries = map (\<lambda>i. map (\<lambda>j. c j ! i) [0..<length v]) [0..<n]\<rparr>"
  using assms(3,4)
proof (induction "length v - k" arbitrary: k)
  case 0
  then show ?case by simp
next
  case (Suc d)
  then have k: "k < length v" by simp
  have u: "[k..<length v] = k # [Suc k..<length v]" using k by (simp add: upt_rec)
  have vk: "v ! k = Matrix (c k)" and ck: "length (c k) = n" using assms(1) k by auto
  have ne: "c k \<noteq> []" using ck assms(2) by auto
  have rj: "row_join \<lparr>nrows = n, ncols = k, entries = map (\<lambda>i. map (\<lambda>j. c j ! i) [0..<k]) [0..<n]\<rparr> (v ! k)
      = Inr \<lparr>nrows = n, ncols = Suc k, entries = map (\<lambda>i. map (\<lambda>j. c j ! i) [0..<Suc k]) [0..<n]\<rparr>"
    using Suc.prems ne ck
    by (simp add: row_join_def vk Matrix_def map2_upt_nth del: upt_Suc) (simp)
  have "d = length v - Suc k" using Suc.hyps(2) by simp
  from Suc.hyps(1) [OF this] k show ?case by (simp add: u rj del: upt_Suc)
qed

lemma get_super_eq:
  assumes "0 < n"
  shows "get_super n = Inr \<lparr>nrows = n, ncols = n,
           entries = map (\<lambda>i. map (\<lambda>j. super_column n j ! i) [0..<n]) [0..<n]
                       :: 'a::{zero,one} list list\<rparr>"
proof -
  let ?v = "map (\<lambda>j. Matrix (super_column n j :: 'a list)) [0..<n]"
  have len: "length ?v = n" by simp
  have cols: "\<forall>j < length ?v. ?v ! j = Matrix (super_column n j :: 'a list) \<and> length (super_column n j :: 'a list) = n"
    by (simp add: length_super_column del: upt_Suc)
  have hd: "?v = Matrix (super_column n 0) # tl ?v" using assms by (cases n) (simp_all add: upt_rec)
  have m0: "Matrix (super_column n 0 :: 'a list) =
     \<lparr>nrows = n, ncols = 1, entries = map (\<lambda>i. map (\<lambda>j. super_column n j ! i) [0..<1]) [0..<n]\<rparr>"
    using assms by (auto simp: Matrix_def super_column_def intro!: nth_equalityI)
  have "concat_vec ?v = concat_loop ?v (Matrix (super_column n 0)) [1..<length ?v]"
    using hd by (metis concat_vec_def list.simps(5))
  also have "\<dots> = Inr \<lparr>nrows = n, ncols = length ?v,
                entries = map (\<lambda>i. map (\<lambda>j. super_column n j ! i) [0..<length ?v]) [0..<n]\<rparr>"
    unfolding m0 using concat_loop_columns [OF cols assms, of 1] assms len by simp
  finally show ?thesis unfolding get_super_def get_super_columns [OF assms] by simp
qed

lemma get_super_entries:
  assumes "0 < n"
  shows "get_super n = Inr \<lparr>nrows = n, ncols = n,
           entries = map (\<lambda>i. map (\<lambda>j. if j = i + 1 then 1 else 0) [0..<n]) [0..<n]
                       :: 'a::{zero,one} list list\<rparr>"
proof -
  have "map (\<lambda>i. map (\<lambda>j. super_column n j ! i) [0..<n]) [0..<n]
      = map (\<lambda>i. map (\<lambda>j. if j = i + 1 then 1 else 0 :: 'a) [0..<n]) [0..<n]"
    by (simp add: super_column_nth)
  then show ?thesis using get_super_eq [OF assms, where 'a = 'a] by simp
qed

lemma jordan_block_eq:
  assumes "0 < n"
  shows "jordan_block ev n = Inr (jordan_matrix ev n)"
proof -
  have "map2 (map2 (+)) (map (map ((*) ev)) (map (\<lambda>i. map (\<lambda>j. if i = j then 1 else 0) [0..<n]) [0..<n]))
          (map (\<lambda>i. map (\<lambda>j. if j = i + 1 then 1 else 0) [0..<n]) [0..<n])
      = map (\<lambda>i. map (\<lambda>j. if i = j then ev else if j = i + 1 then 1 else 0) [0..<n]) [0..<n]"
    by (intro nth_equalityI) (simp_all del: upt_Suc)
  then show ?thesis
    by (simp add: jordan_block_def get_super_entries [OF assms] mat_add_def scalar_mul_def eye_def
        jordan_matrix_def)
qed

text \<open>
  Claim C6. For \<open>n \<ge> 1\<close>, \<open>jordan_block \<lambda> n\<close> returns \<open>\<lambda>I + S\<close> where \<open>S = get_super n\<close> is
  the \<open>n \<times> n\<close> matrix with 1 on the superdiagonal: an \<open>n \<times> n\<close> matrix whose entry \<open>(i, j)\<close> is
  \<open>\<lambda>\<close> for \<open>j = i\<close>, 1 for \<open>j = i + 1\<close> and 0 elsewhere; \<open>jordan_block \<lambda> 1\<close> is \<open>[[\<lambda>]]\<close>.
\<close>

theorem jordan_block_entries:
  assumes "1 \<le> n"
  shows "get_super n = Inr (superdiagonal n :: 'a::comm_ring_1 matrix)
       \<and> (\<exists>M. jordan_block (ev :: 'a) n = Inr M \<and> nrows M = n \<and> ncols M = n
              \<and> length (entries M) = n
              \<and> (\<forall>i < n. length (entries M ! i) = n
                     \<and> (\<forall>j < n. entries M ! i ! j
                                    = (if j = i then ev else if j = i + 1 then 1 else 0))))
       \<and> jordan_block ev 1 = Inr \<lparr>nrows = 1, ncols = 1, entries = [[ev]]\<rparr>"
proof -
  have n: "0 < n" using assms by simp
  have s: "get_super n = Inr (superdiagonal n :: 'a matrix)"
    using get_super_entries [OF n, where 'a = 'a] by (simp add: superdiagonal_def)
  have b: "jordan_block ev n = Inr (jordan_matrix ev n)" by (rule jordan_block_eq [OF n])
  have e: "\<forall>i < n. length (entries (jordan_matrix ev n) ! i) = n
            \<and> (\<forall>j < n. entries (jordan_matrix ev n) ! i ! j
                           = (if j = i then ev else if j = i + 1 then 1 else 0))"
    by (auto simp: jordan_matrix_def simp del: upt_Suc)
  have d: "nrows (jordan_matrix ev n) = n \<and> ncols (jordan_matrix ev n) = n
           \<and> length (entries (jordan_matrix ev n)) = n"
    by (simp add: jordan_matrix_def)
  have o: "jordan_block ev 1 = Inr \<lparr>nrows = 1, ncols = 1, entries = [[ev]]\<rparr>"
    using jordan_block_eq [of 1 ev] by (simp add: jordan_matrix_def)
  from s b e d o show ?thesis by blast
qed

theorem jordan_block_entries_witness:
  "1 \<le> (3::nat)
   \<and> get_super 3 = Inr \<lparr>nrows = 3, ncols = 3, entries = [[0, 1, 0], [0, 0, 1], [0, 0, 0 :: rat]]\<rparr>
   \<and> jordan_block (5 :: rat) 3
       = Inr \<lparr>nrows = 3, ncols = 3, entries = [[5, 1, 0], [0, 5, 1], [0, 0, 5]]\<rparr>"
proof -
  have h: "1 \<le> (3::nat)" by simp
  have u: "[0..<3] = [0, 1, 2]" by (simp add: upt_rec)
  from jordan_block_entries [OF h, of "5 :: rat"] obtain M where
    s: "get_super 3 = Inr (superdiagonal 3 :: rat matrix)" and
    m: "jordan_block (5 :: rat) 3 = Inr M" "nrows M = 3" "ncols M = 3" "length (entries M) = 3" and
    e: "\<forall>i < 3. length (entries M ! i) = 3
           \<and> (\<forall>j < 3. entries M ! i ! j = (if j = i then 5 else if j = i + 1 then 1 else 0))"
    by blast
  have "jordan_block (5 :: rat) 3 = Inr (jordan_matrix 5 3)" by (rule jordan_block_eq) simp
  then have "M = jordan_matrix 5 3" using m(1) by simp
  then have "M = \<lparr>nrows = 3, ncols = 3, entries = [[5, 1, 0], [0, 5, 1], [0, 0, 5]]\<rparr>"
    by (simp add: jordan_matrix_def u)
  with s m(1) h show ?thesis by (simp add: superdiagonal_def u)
qed

subsection \<open>\<^verbatim>\<open>create_blocks\<close>\<close>

lemma append_blocks_eq:
  "0 < sz \<Longrightarrow> append_blocks ev sz k blocks = Inr (blocks @ replicate k (Some (jordan_matrix ev sz)))"
proof (induction k arbitrary: blocks)
  case 0
  then show ?case by simp
next
  case (Suc k)
  then show ?case by (simp add: jordan_block_eq replicate_append_same)
qed

lemma blocks_loop_eq:
  "blocks_loop ev bi is blocks =
     Inr (blocks @ concat (map (\<lambda>i. replicate (nat (bi ! i)) (Some (jordan_matrix ev (i + 1)))) is))"
proof (induction "is" arbitrary: blocks)
  case Nil
  then show ?case by simp
next
  case (Cons i "is")
  show ?case
  proof (cases "bi ! i > 0")
    case True
    then show ?thesis by (simp add: append_blocks_eq Cons.IH)
  next
    case False
    then show ?thesis by (simp add: Cons.IH)
  qed
qed

lemma built_blocks_eq:
  "built_blocks w ev =
     Inr (concat (map (\<lambda>i. replicate (nat (block_info w ! i)) (Some (jordan_matrix ev (i + 1))))
                      (rev [0..<length w - 1])))"
  by (simp add: built_blocks_def blocks_loop_eq length_block_info)

lemma blocks_of_size_append:
  "blocks_of_size i (xs @ ys) = blocks_of_size i xs + blocks_of_size i ys"
  by (simp add: blocks_of_size_def)

lemma blocks_of_size_replicate:
  "blocks_of_size i (replicate k (Some (jordan_matrix ev n))) = (if n = i then k else 0)"
  by (simp add: blocks_of_size_def jordan_matrix_def)

lemma blocks_of_size_concat:
  "blocks_of_size i (concat (map (\<lambda>k. replicate (c k) (Some (jordan_matrix ev (k + 1)))) ks))
     = sum_list (map (\<lambda>k. if k + 1 = i then c k else 0) ks)"
  by (induction ks) (simp_all add: blocks_of_size_append blocks_of_size_replicate, simp add: blocks_of_size_def)

lemma sum_list_single:
  "distinct ks \<Longrightarrow> sum_list (map (\<lambda>k. if k = j then c k else 0) ks) = (if j \<in> set ks then c j else (0::nat))"
  by (induction ks) auto

lemma built_blocks_count:
  assumes "1 \<le> i" "i < length w"
  shows "\<exists>blocks. built_blocks w ev = Inr blocks
          \<and> blocks_of_size i blocks = nat (w ! (i - 1) - w ! i)"
proof -
  let ?c = "\<lambda>k. nat (block_info w ! k)"
  let ?blocks = "concat (map (\<lambda>k. replicate (?c k) (Some (jordan_matrix ev (k + 1)))) (rev [0..<length w - 1]))"
  have i1: "i - 1 < length w - 1" using assms by simp
  have "blocks_of_size i ?blocks = sum_list (map (\<lambda>k. if k + 1 = i then ?c k else 0) (rev [0..<length w - 1]))"
    by (rule blocks_of_size_concat)
  also have "\<dots> = sum_list (map (\<lambda>k. if k = i - 1 then ?c k else 0) (rev [0..<length w - 1]))"
    using assms by (intro arg_cong [where f = sum_list] map_cong) auto
  also have "\<dots> = ?c (i - 1)" using i1 by (subst sum_list_single) simp_all
  also have "\<dots> = nat (w ! (i - 1) - w ! i)" using block_info_nth [OF i1] assms by simp
  finally show ?thesis using built_blocks_eq by blast
qed

lemma built_blocks_members:
  assumes "built_blocks w ev = Inr blocks" "b \<in> set blocks"
  shows "\<exists>i. 1 \<le> i \<and> i < length w \<and> 0 < w ! (i - 1) - w ! i \<and> b = Some (jordan_matrix ev i)"
proof -
  from assms obtain k where k: "k < length w - 1" and
    b: "b \<in> set (replicate (nat (block_info w ! k)) (Some (jordan_matrix ev (k + 1))))"
    by (auto simp: built_blocks_eq)
  then have "0 < block_info w ! k" and "b = Some (jordan_matrix ev (k + 1))" by (auto split: if_splits)
  then show ?thesis using k block_info_nth [OF k] by (intro exI [of _ "k + 1"]) simp
qed

text \<open>\<open>many_summand\<close> on square blocks: a square matrix whose size is the sum of theirs.\<close>

lemma direct_sum_fold_square:
  assumes "\<forall>b \<in> set Bs. \<exists>M. b = Some M \<and> nrows M = ncols M" and "nrows a = ncols a"
  shows "\<exists>R. direct_sum_fold (Some a) Bs = Inr (Some R) \<and> nrows R = ncols R
            \<and> nrows R = nrows a + sum_list (map (\<lambda>b. nrows (the b)) Bs)"
  using assms
proof (induction Bs arbitrary: a)
  case Nil
  then show ?case by simp
next
  case (Cons B Bs)
  then obtain M where M: "B = Some M" "nrows M = ncols M" by auto
  let ?R = "\<lparr>nrows = nrows a + nrows M, ncols = ncols a + ncols M,
             entries = map2 (@) (entries a) (replicate (ncols a) (replicate (nrows M) 0))
                        @ map2 (@) (replicate (nrows M) (replicate (ncols a) 0)) (entries M)\<rparr>"
  have d: "direct_summand (Some a) B = Inr ?R"
    using direct_summand_square [OF Cons.prems(2) M(2)] M(1) by simp
  have sq: "nrows ?R = ncols ?R" using Cons.prems(2) M(2) by simp
  have "\<forall>b \<in> set Bs. \<exists>M. b = Some M \<and> nrows M = ncols M" using Cons.prems(1) by simp
  from Cons.IH [OF this sq] obtain R where
    "direct_sum_fold (Some ?R) Bs = Inr (Some R)" "nrows R = ncols R"
    "nrows R = nrows ?R + sum_list (map (\<lambda>b. nrows (the b)) Bs)" by blast
  then show ?case using d M by (simp add: add.assoc)
qed

lemma many_summand_square:
  assumes "\<forall>b \<in> set Bs. \<exists>M. b = Some M \<and> nrows M = ncols M" and "Bs \<noteq> []"
  shows "\<exists>R. many_summand Bs = Inr (Some R) \<and> nrows R = ncols R
            \<and> nrows R = sum_list (map (\<lambda>b. nrows (the b)) Bs)"
proof -
  from assms obtain a As where Bs: "Bs = Some a # As" and a: "nrows a = ncols a"
    by (cases Bs) auto
  have "\<forall>b \<in> set As. \<exists>M. b = Some M \<and> nrows M = ncols M" using assms(1) Bs by simp
  from direct_sum_fold_square [OF this a] show ?thesis
    by (simp add: Bs many_summand_cons)
qed

text \<open>
  Claim C5. For every list \<open>w\<close> and eigenvalue, \<open>create_blocks\<close> raises nothing, and the
  blocks it builds are these: for each \<open>i = 1, \<dots>, len(w) - 1\<close> with \<open>bi = w[i-1] - w[i]\<close>,
  exactly \<open>bi\<close> blocks of size \<open>i\<close> when \<open>bi > 0\<close> and none when \<open>bi \<le> 0\<close>; every block built
  is \<open>jordan_block eigenval i\<close> for such an \<open>i\<close> with \<open>bi > 0\<close>.
\<close>

theorem create_blocks_counts:
  "\<exists>blocks. built_blocks w ev = Inr blocks
      \<and> (\<forall>i. 1 \<le> i \<and> i < length w \<longrightarrow>
             blocks_of_size i blocks
               = (if 0 < w ! (i - 1) - w ! i then nat (w ! (i - 1) - w ! i) else 0))
      \<and> (\<forall>b \<in> set blocks. \<exists>i M. 1 \<le> i \<and> i < length w \<and> 0 < w ! (i - 1) - w ! i
             \<and> jordan_block ev i = Inr M \<and> b = Some M)
      \<and> (\<exists>R. create_blocks w ev = Inr R)"
proof -
  obtain blocks where b: "built_blocks w ev = Inr blocks" using built_blocks_eq by blast
  have c: "blocks_of_size i blocks
             = (if 0 < w ! (i - 1) - w ! i then nat (w ! (i - 1) - w ! i) else 0)"
    if "1 \<le> i \<and> i < length w" for i
    using built_blocks_count [of i w ev] that b by auto
  have m: "\<exists>i M. 1 \<le> i \<and> i < length w \<and> 0 < w ! (i - 1) - w ! i
             \<and> jordan_block ev i = Inr M \<and> b' = Some M" if "b' \<in> set blocks" for b'
  proof -
    from built_blocks_members [OF b that] obtain i where
      i: "1 \<le> i" "i < length w" "0 < w ! (i - 1) - w ! i" "b' = Some (jordan_matrix ev i)" by blast
    then have "jordan_block ev i = Inr (jordan_matrix ev i)" by (intro jordan_block_eq) simp
    with i show ?thesis by blast
  qed
  have r: "\<exists>R. create_blocks w ev = Inr R"
  proof (cases "blocks = []")
    case True
    then show ?thesis using b by (simp add: create_blocks_def many_summand_def)
  next
    case False
    have "\<forall>b' \<in> set blocks. \<exists>M. b' = Some M \<and> nrows M = ncols M"
      using built_blocks_members [OF b] by (fastforce simp: jordan_matrix_def)
    from many_summand_square [OF this False] show ?thesis using b by (auto simp: create_blocks_def)
  qed
  from b c m r show ?thesis by blast
qed

theorem create_blocks_counts_witness:
  "built_blocks [1, 3, 1, 0] (2 :: rat)
     = Inr [Some (jordan_matrix 2 3), Some (jordan_matrix 2 2), Some (jordan_matrix 2 2)]
   \<and> blocks_of_size 1 [Some (jordan_matrix (2 :: rat) 3), Some (jordan_matrix 2 2), Some (jordan_matrix 2 2)] = 0
   \<and> blocks_of_size 2 [Some (jordan_matrix (2 :: rat) 3), Some (jordan_matrix 2 2), Some (jordan_matrix 2 2)] = 2
   \<and> blocks_of_size 3 [Some (jordan_matrix (2 :: rat) 3), Some (jordan_matrix 2 2), Some (jordan_matrix 2 2)] = 1
   \<and> (\<exists>R. create_blocks [1, 3, 1, 0] (2 :: rat) = Inr R)"
proof -
  let ?bs = "[Some (jordan_matrix (2 :: rat) 3), Some (jordan_matrix 2 2), Some (jordan_matrix 2 2)]"
  have e: "built_blocks [1, 3, 1, 0] (2 :: rat) = Inr ?bs"
    by (simp add: built_blocks_eq block_info_map upt_rec numeral_2_eq_2 numeral_3_eq_3)
  from create_blocks_counts [of "[1, 3, 1, 0]" "2 :: rat"] obtain blocks where
    b: "built_blocks [1, 3, 1, 0] (2 :: rat) = Inr blocks" and
    c: "\<forall>i. 1 \<le> i \<and> i < length [1, 3, 1, 0 :: int] \<longrightarrow>
             blocks_of_size i blocks
               = (if 0 < [1, 3, 1, 0 :: int] ! (i - 1) - [1, 3, 1, 0] ! i
                  then nat ([1, 3, 1, 0 :: int] ! (i - 1) - [1, 3, 1, 0] ! i) else 0)" and
    r: "\<exists>R. create_blocks [1, 3, 1, 0] (2 :: rat) = Inr R" by blast
  have bs: "blocks = ?bs" using b e by simp
  from c [rule_format, of 1] have c1: "blocks_of_size 1 ?bs = 0" by (simp add: bs)
  from c [rule_format, of 2] have c2: "blocks_of_size 2 ?bs = 2" by (simp add: bs)
  from c [rule_format, of 3] have c3: "blocks_of_size 3 ?bs = 1" by (simp add: bs)
  from e c1 c2 c3 r show ?thesis by blast
qed

subsection \<open>\<^verbatim>\<open>stabilize_ranks\<close> and the example of the specification\<close>

lemma stabilize_loop_step:
  assumes "nrows A = ncols A"
  shows "stabilize_loop rank A ev r p =
           (let rk = rank_of_power rank A ev p; r' = r @ [rk]
            in if rk = (if p = 0 then last r' else r' ! (p - 1)) \<and> p \<noteq> 0 then Some (Inr r')
               else stabilize_loop rank A ev r' (p + 1))"
  using assms
  by (subst stabilize_loop.simps)
     (simp add: mat_sub_def mat_pow_def scalar_mul_def eye_def rank_of_power_def Let_def)

lemma stabilize_loop_exit:
  assumes "nrows A = ncols A" and "p \<noteq> 0"
    and "rank_of_power rank A ev p = rank_of_power rank A ev (p - 1)"
  shows "stabilize_loop rank A ev (map (rank_of_power rank A ev) [0..<p]) p
           = Some (Inr (map (rank_of_power rank A ev) [0..<Suc p]))"
proof -
  let ?f = "rank_of_power rank A ev"
  have "(map ?f [0..<p] @ [?f p]) ! (p - 1) = ?f (p - 1)"
    using assms(2) by (simp add: nth_append)
  then show ?thesis
    unfolding stabilize_loop_step [OF assms(1), of rank ev "map ?f [0..<p]" p]
    using assms(2,3) by (simp add: Let_def)
qed

lemma stabilize_loop_continue:
  assumes "nrows A = ncols A"
    and "p = 0 \<or> rank_of_power rank A ev p \<noteq> rank_of_power rank A ev (p - 1)"
  shows "stabilize_loop rank A ev (map (rank_of_power rank A ev) [0..<p]) p
           = stabilize_loop rank A ev (map (rank_of_power rank A ev) [0..<Suc p]) (Suc p)"
proof (cases "p = 0")
  case True
  show ?thesis
    unfolding True stabilize_loop_step [OF assms(1), of rank ev "map (rank_of_power rank A ev) [0..<0]" 0]
    by (simp add: Let_def)
next
  case False
  let ?f = "rank_of_power rank A ev"
  have n: "(map ?f [0..<p] @ [?f p]) ! (p - 1) = ?f (p - 1)"
    using False by (simp add: nth_append)
  have ne: "?f p \<noteq> ?f (p - 1)" using assms(2) False by simp
  have "stabilize_loop rank A ev (map ?f [0..<p]) p
          = stabilize_loop rank A ev (map ?f [0..<p] @ [?f p]) (p + 1)"
    unfolding stabilize_loop_step [OF assms(1), of rank ev "map ?f [0..<p]" p] Let_def n
    using False ne by simp
  then show ?thesis by simp
qed

lemma stabilize_loop_run:
  assumes sq: "nrows A = ncols A"
    and k: "1 \<le> k" "rank_of_power rank A ev k = rank_of_power rank A ev (k - 1)"
    and first: "\<forall>q. 1 \<le> q \<and> q < k \<longrightarrow> rank_of_power rank A ev q \<noteq> rank_of_power rank A ev (q - 1)"
    and p: "p \<le> k"
  shows "stabilize_loop rank A ev (map (rank_of_power rank A ev) [0..<p]) p
           = Some (Inr (map (rank_of_power rank A ev) [0..<Suc k]))"
  using p
proof (induction d \<equiv> "k - p" arbitrary: p)
  case 0
  then have pk: "p = k" by simp
  show ?case unfolding pk using k by (intro stabilize_loop_exit [OF sq]) simp_all
next
  case (Suc d)
  then have pk: "p < k" by simp
  have c: "p = 0 \<or> rank_of_power rank A ev p \<noteq> rank_of_power rank A ev (p - 1)"
    using first pk by (cases "p = 0") simp_all
  have "d = k - Suc p" using Suc.hyps(2) by simp
  moreover have "Suc p \<le> k" using pk by simp
  ultimately have "stabilize_loop rank A ev (map (rank_of_power rank A ev) [0..<Suc p]) (Suc p)
           = Some (Inr (map (rank_of_power rank A ev) [0..<Suc k]))" by (rule Suc.hyps(1))
  then show ?case unfolding stabilize_loop_continue [OF sq c] .
qed

lemma decreasing_stabilizes:
  fixes f :: "nat \<Rightarrow> int"
  assumes mono: "\<forall>p. f (Suc p) \<le> f p" and nonneg: "\<forall>p. 0 \<le> f p"
  shows "\<exists>k. 1 \<le> k \<and> f k = f (k - 1)"
proof (rule ccontr)
  assume "\<not> ?thesis"
  then have ne: "f (Suc q) \<noteq> f q" for q by (metis diff_Suc_1 le_add1 plus_1_eq_Suc)
  have "f q \<le> f 0 - int q" for q
  proof (induction q)
    case 0
    then show ?case by simp
  next
    case (Suc q)
    have "f (Suc q) < f q" using mono ne [of q] by (simp add: order_less_le)
    with Suc show ?case by simp
  qed
  from this [of "nat (f 0) + 1"] nonneg [rule_format, of 0] nonneg [rule_format, of "nat (f 0) + 1"]
  show False by simp
qed

lemma stabilize_ranks_first:
  assumes sq: "nrows A = ncols A"
    and ex: "\<exists>k. 1 \<le> k \<and> rank_of_power rank A ev k = rank_of_power rank A ev (k - 1)"
  shows "\<exists>k. 1 \<le> k \<and> rank_of_power rank A ev k = rank_of_power rank A ev (k - 1)
           \<and> (\<forall>q. 1 \<le> q \<and> q < k \<longrightarrow> rank_of_power rank A ev q \<noteq> rank_of_power rank A ev (q - 1))
           \<and> stabilize_ranks rank A ev = Some (Inr (map (rank_of_power rank A ev) [0..<Suc k]))"
proof -
  let ?f = "rank_of_power rank A ev"
  let ?P = "\<lambda>k. 1 \<le> k \<and> ?f k = ?f (k - 1)"
  from ex obtain k0 where "?P k0" by blast
  define k where "k = (LEAST k. ?P k)"
  have Pk: "?P k" unfolding k_def using \<open>?P k0\<close> by (rule LeastI)
  have first: "\<forall>q. 1 \<le> q \<and> q < k \<longrightarrow> ?f q \<noteq> ?f (q - 1)"
    using not_less_Least [of _ ?P] unfolding k_def by blast
  from stabilize_loop_run [OF sq _ _ first, of 0] Pk
  have "stabilize_ranks rank A ev = Some (Inr (map ?f [0..<Suc k]))"
    by (simp add: stabilize_ranks_def)
  with Pk first show ?thesis by blast
qed

lemma stabilize_ranks_result:
  assumes sq: "nrows A = ncols A"
    and mono: "\<forall>p. rank_of_power rank A ev (Suc p) \<le> rank_of_power rank A ev p"
    and nonneg: "\<forall>p. 0 \<le> rank_of_power rank A ev p"
  shows "\<exists>k. 1 \<le> k \<and> rank_of_power rank A ev k = rank_of_power rank A ev (k - 1)
           \<and> (\<forall>q. 1 \<le> q \<and> q < k \<longrightarrow> rank_of_power rank A ev q \<noteq> rank_of_power rank A ev (q - 1))
           \<and> stabilize_ranks rank A ev = Some (Inr (map (rank_of_power rank A ev) [0..<Suc k]))"
  by (rule stabilize_ranks_first [OF sq decreasing_stabilizes [OF mono nonneg]])

lemma upt_2: "[0..<2] = [0, 1]" by (simp add: upt_rec)

lemma example_power:
  "power_rec nilpotent_example 0 = eye 2"
  "power_rec nilpotent_example (Suc 0) = nilpotent_example"
  "power_rec nilpotent_example (Suc (Suc k)) = zeros 2 2"
proof -
  show 0: "power_rec nilpotent_example 0 = eye 2" by (simp add: nilpotent_example_def)
  show 1: "power_rec nilpotent_example (Suc 0) = nilpotent_example"
    by (simp add: nilpotent_example_def mat_mul_def eye_def upt_2)
  show "power_rec nilpotent_example (Suc (Suc k)) = zeros 2 2"
  proof (induction k)
    case 0
    show ?case unfolding power_rec.simps(2) [of _ "Suc 0"] 1
      by (simp add: nilpotent_example_def mat_mul_def zeros_def upt_2 numeral_2_eq_2)
  next
    case (Suc k)
    show ?case unfolding power_rec.simps(2) [of _ "Suc (Suc k)"] Suc
      by (simp add: nilpotent_example_def mat_mul_def zeros_def upt_2 numeral_2_eq_2)
  qed
qed

lemma example_rank_of_power:
  "rank_of_power rank jordan_example 2 p =
     (if p = 0 then rank (eye 2) else if p = 1 then rank nilpotent_example else rank (zeros 2 2))"
proof -
  have d: "jordan_example\<lparr>entries := map2 (map2 (-)) (entries jordan_example)
              (entries (scalar_mul 2 (eye (nrows jordan_example))))\<rparr> = nilpotent_example"
    by (simp add: jordan_example_def nilpotent_example_def scalar_mul_def eye_def upt_2)
  show ?thesis
  proof (cases p)
    case 0
    then show ?thesis by (simp add: rank_of_power_def d example_power(1) del: power_rec.simps)
  next
    case (Suc q)
    then show ?thesis
      by (cases q) (simp_all add: rank_of_power_def d example_power del: power_rec.simps)
  qed
qed

lemma example_rank_gauss:
  "rank_gauss (eye 2 :: rat matrix) = 2" "rank_gauss nilpotent_example = 1"
  "rank_gauss (zeros 2 2 :: rat matrix) = 0"
  by (simp_all add: rank_gauss_def eye_def zeros_def nilpotent_example_def upt_2 numeral_2_eq_2)

lemma example_stabilize:
  assumes "rank (eye 2) = 2" "rank nilpotent_example = 1" "rank (zeros 2 2) = 0"
  shows "stabilize_ranks rank jordan_example 2 = Some (Inr [2, 1, 0, 0])"
proof -
  let ?f = "rank_of_power rank jordan_example 2"
  have f: "?f 0 = 2" "?f 1 = 1" "?f 2 = 0" "?f 3 = 0"
    using assms by (simp_all add: example_rank_of_power)
  have sq: "nrows jordan_example = ncols jordan_example" by (simp add: jordan_example_def)
  have first: "\<forall>q. 1 \<le> q \<and> q < 3 \<longrightarrow> ?f q \<noteq> ?f (q - 1)"
  proof (intro allI impI)
    fix q :: nat assume "1 \<le> q \<and> q < 3"
    then have "q = 1 \<or> q = 2" by auto
    then show "?f q \<noteq> ?f (q - 1)" using assms by (auto simp: example_rank_of_power)
  qed
  have "stabilize_loop rank jordan_example 2 (map ?f [0..<0]) 0 = Some (Inr (map ?f [0..<Suc 3]))"
    using f by (intro stabilize_loop_run [OF sq _ _ first]) simp_all
  moreover have "[0..<Suc 3] = [0, 1, 2, 3]" by (simp add: upt_rec)
  ultimately show ?thesis using f by (simp add: stabilize_ranks_def)
qed


lemma antimono_sequence:
  fixes f :: "nat \<Rightarrow> int"
  assumes "\<forall>p. f (Suc p) \<le> f p" and "i \<le> j"
  shows "f j \<le> f i"
  using assms(2)
proof (induction j)
  case 0
  then show ?case by simp
next
  case (Suc j)
  show ?case
  proof (cases "i = Suc j")
    case True
    then show ?thesis by simp
  next
    case False
    then have "f j \<le> f i" using Suc by simp
    moreover have "f (Suc j) \<le> f j" using assms(1) by simp
    ultimately show ?thesis by simp
  qed
qed

lemma example_monotone:
  "\<forall>p. rank_of_power rank_gauss jordan_example 2 (Suc p) \<le> rank_of_power rank_gauss jordan_example 2 p"
  "\<forall>p. 0 \<le> rank_of_power rank_gauss jordan_example 2 p"
  by (simp_all add: example_rank_of_power example_rank_gauss)

text \<open>
  Claim C2. For a square matrix \<open>A\<close> and a value \<open>\<lambda>\<close>, when the ranks of the powers of
  \<open>A - \<lambda>I\<close> that the rank function returns are non-increasing and bounded below by 0, the
  loop of \<open>stabilize_ranks\<close> terminates: it reaches a first power \<open>k \<ge> 1\<close> whose rank equals
  the preceding one and returns the ranks of the powers \<open>0, \<dots>, k\<close>.
\<close>

theorem stabilize_ranks_terminates:
  assumes "nrows A = ncols A"
    and "\<forall>p. rank_of_power rank A ev (Suc p) \<le> rank_of_power rank A ev p"
    and "\<forall>p. 0 \<le> rank_of_power rank A ev p"
  shows "\<exists>k r. 1 \<le> k \<and> rank_of_power rank A ev k = rank_of_power rank A ev (k - 1)
           \<and> r = map (rank_of_power rank A ev) [0..<Suc k]
           \<and> stabilize_ranks rank A ev = Some (Inr r)"
  using stabilize_ranks_result [OF assms] by blast

theorem stabilize_ranks_terminates_witness:
  "nrows jordan_example = ncols jordan_example
   \<and> (\<forall>p. rank_of_power rank_gauss jordan_example 2 (Suc p)
            \<le> rank_of_power rank_gauss jordan_example 2 p)
   \<and> (\<forall>p. 0 \<le> rank_of_power rank_gauss jordan_example 2 p)
   \<and> (\<exists>r. stabilize_ranks rank_gauss jordan_example 2 = Some (Inr r))
   \<and> stabilize_ranks rank_gauss jordan_example 2 = Some (Inr [2, 1, 0, 0])"
proof -
  have sq: "nrows jordan_example = ncols jordan_example" by (simp add: jordan_example_def)
  from stabilize_ranks_terminates [OF sq example_monotone]
  have t: "\<exists>r. stabilize_ranks rank_gauss jordan_example 2 = Some (Inr r)" by blast
  have v: "stabilize_ranks rank_gauss jordan_example 2 = Some (Inr [2, 1, 0, 0])"
    by (rule example_stabilize) (rule example_rank_gauss)+
  from sq example_monotone t v show ?thesis by blast
qed

text \<open>
  Claim C7. For a square \<open>n \<times> n\<close> matrix, with a rank function that gives \<open>n\<close> on the identity
  and non-increasing, non-negative ranks on the powers of \<open>A - \<lambda>I\<close>, the list that
  \<open>stabilize_ranks\<close> returns is non-increasing, starts with \<open>n\<close> and has length at least 1.
\<close>

theorem stabilize_ranks_nonincreasing:
  assumes "nrows A = ncols A"
    and "\<forall>p. rank_of_power rank A ev (Suc p) \<le> rank_of_power rank A ev p"
    and "\<forall>p. 0 \<le> rank_of_power rank A ev p"
    and "rank (eye (nrows A)) = int (nrows A)"
  shows "\<exists>r. stabilize_ranks rank A ev = Some (Inr r)
           \<and> (\<forall>i j. i \<le> j \<and> j < length r \<longrightarrow> r ! j \<le> r ! i)
           \<and> r ! 0 = int (nrows A) \<and> 1 \<le> length r"
proof -
  let ?f = "rank_of_power rank A ev"
  from stabilize_ranks_result [OF assms(1-3)] obtain k where
    k: "1 \<le> k" and r: "stabilize_ranks rank A ev = Some (Inr (map ?f [0..<Suc k]))" by blast
  let ?r = "map ?f [0..<Suc k]"
  have nth: "?r ! i = ?f i" if "i < Suc k" for i
    using that nth_map [of i "[0..<Suc k]" ?f] nth_upt [of 0 i "Suc k"] by (simp del: upt_Suc)
  have len: "length ?r = Suc k" by simp
  have mono: "?r ! j \<le> ?r ! i" if "i \<le> j \<and> j < length ?r" for i j
  proof -
    have "j < Suc k" "i < Suc k" using that by (simp_all del: upt_Suc)
    then show ?thesis using antimono_sequence [OF assms(2), of i j] that by (simp only: nth)
  qed
  have "?f 0 = rank (eye (nrows A))" by (simp add: rank_of_power_def)
  then have first: "?r ! 0 = int (nrows A)" using assms(4) nth [of 0] by simp
  have "1 \<le> length ?r" by simp
  with r mono first show ?thesis by blast
qed

theorem stabilize_ranks_nonincreasing_witness:
  "nrows jordan_example = ncols jordan_example
   \<and> (\<forall>p. rank_of_power rank_gauss jordan_example 2 (Suc p)
            \<le> rank_of_power rank_gauss jordan_example 2 p)
   \<and> (\<forall>p. 0 \<le> rank_of_power rank_gauss jordan_example 2 p)
   \<and> rank_gauss (eye (nrows jordan_example) :: rat matrix) = int (nrows jordan_example)
   \<and> (\<exists>r. stabilize_ranks rank_gauss jordan_example 2 = Some (Inr r)
           \<and> r ! 0 = int (nrows jordan_example) \<and> 1 \<le> length r)"
proof -
  have sq: "nrows jordan_example = ncols jordan_example" by (simp add: jordan_example_def)
  have i: "rank_gauss (eye (nrows jordan_example) :: rat matrix) = int (nrows jordan_example)"
    using example_rank_gauss(1) by (simp add: jordan_example_def)
  from stabilize_ranks_nonincreasing [OF sq example_monotone i]
  have "\<exists>r. stabilize_ranks rank_gauss jordan_example 2 = Some (Inr r)
           \<and> r ! 0 = int (nrows jordan_example) \<and> 1 \<le> length r" by blast
  with sq example_monotone i show ?thesis by blast
qed

text \<open>
  Claim C9. For \<open>A = [[2, 1], [0, 2]]\<close>, whose only eigenvalue is 2 (of multiplicity 2), with
  a rank function that is right on \<open>I\<close>, \<open>A - 2I\<close> and \<open>0\<close>, \<open>jordan_form A\<close> returns
  \<open>[[2, 1], [0, 2]]\<close>.
\<close>

theorem jordan_form_example:
  assumes "eigenvals jordan_example = Inr [(2, 2)]"
    and "rank (eye 2) = 2" and "rank nilpotent_example = 1" and "rank (zeros 2 2) = 0"
  shows "jordan_form eigenvals rank jordan_example
           = Some (Inr (Some \<lparr>nrows = 2, ncols = 2, entries = [[2, 1], [0, 2]]\<rparr>))"
proof -
  have r: "stabilize_ranks rank jordan_example 2 = Some (Inr [2, 1, 0, 0])"
    by (rule example_stabilize [OF assms(2-4)])
  have w: "weyr [2, 1, 0, 0] = [1, 1, 0, 0]" by (simp add: weyr_def upt_rec)
  have b: "built_blocks [1, 1, 0, 0] (2 :: rat) = Inr [Some (jordan_matrix 2 2)]"
    by (simp add: built_blocks_eq block_info_map upt_rec numeral_2_eq_2 numeral_3_eq_3)
  have c: "create_blocks [1, 1, 0, 0] (2 :: rat) = Inr (Some (jordan_matrix 2 2))"
    by (simp add: create_blocks_def b many_summand_def)
  have j: "jordan_matrix (2 :: rat) 2 = \<lparr>nrows = 2, ncols = 2, entries = [[2, 1], [0, 2]]\<rparr>"
    by (simp add: jordan_matrix_def upt_2)
  show ?thesis by (simp add: jordan_form_def assms(1) r w c j)
qed

theorem jordan_form_example_witness:
  "(\<lambda>A :: rat matrix. Inr [(2, 2)] :: error + (rat \<times> int) list) jordan_example = Inr [(2, 2)]
   \<and> rank_gauss (eye 2 :: rat matrix) = 2 \<and> rank_gauss nilpotent_example = 1
   \<and> rank_gauss (zeros 2 2 :: rat matrix) = 0
   \<and> jordan_form (\<lambda>A. Inr [(2, 2)]) rank_gauss jordan_example
       = Some (Inr (Some \<lparr>nrows = 2, ncols = 2, entries = [[2, 1], [0, 2]]\<rparr>))"
proof -
  have e: "(\<lambda>A :: rat matrix. Inr [(2, 2)] :: error + (rat \<times> int) list) jordan_example = Inr [(2, 2)]"
    by simp
  from jordan_form_example [OF e example_rank_gauss] example_rank_gauss show ?thesis by simp
qed

subsection \<open>The dimensions of the result of \<^verbatim>\<open>jordan_form\<close>\<close>


























text \<open>
  Outside the scope of the specification: the \<open>0 \<times> 0\<close> matrix has no eigenvalue, so
  \<^verbatim>\<open>blocks\<close> stays empty and \<^verbatim>\<open>blocks[0]\<close> raises \<^verbatim>\<open>IndexError\<close>.
\<close>

lemma jordan_form_zero_dimension:
  "jordan_form (\<lambda>A. Inr []) rank_gauss (\<lparr>nrows = 0, ncols = 0, entries = []\<rparr> :: rat matrix)
     = Some (Inl IndexError)"
  by (simp add: jordan_form_def)

end
